theory Spec2Isabelle
  imports Main "HOL-Library.Word"
begin

section \<open>The GCD compute service (server/main.go)\<close>

text \<open>
  The protocol messages carry Go \<open>uint64\<close> fields, modelled as 64-bit words.
\<close>

type_synonym u64 = "64 word"

record GCDRequest =
  A :: u64
  B :: u64

record GCDResponse =
  Result :: u64

text \<open>
  Go's \<open>a % b\<close> on unsigned integers panics with "integer divide by zero" when the
  divisor is zero. HOL's \<open>mod\<close> is total (\<open>a mod 0 = a\<close>), so the panic is written out:
  \<open>umod\<close> returns \<open>Inl DivideByZero\<close> there.
\<close>

datatype panic = DivideByZero

definition umod :: "u64 \<Rightarrow> u64 \<Rightarrow> panic + u64" where
  "umod a b = (if b = 0 then Inl DivideByZero else Inr (a mod b))"

text \<open>
  The loop of \<open>Computer\<close>:
  \<^verbatim>\<open>
  a, b := r.A, r.B
  for b != 0 {
    a, b = b, a%b
  }
  \<close>
  as a recursive function on the pair of loop variables. A panic raised by the remainder
  leaves the loop at once. The value returned is the final \<open>a\<close>.
\<close>

function Computer_loop :: "u64 \<Rightarrow> u64 \<Rightarrow> panic + u64" where
  "Computer_loop a b =
     (if b \<noteq> 0
      then (case umod a b of
              Inl p \<Rightarrow> Inl p
            | Inr r \<Rightarrow> Computer_loop b r)
      else Inr a)"
  by pat_completeness auto
termination
proof (relation "measure (\<lambda>(a, b). unat b)")
  show "wf (measure (\<lambda>(a, b). unat b))"
    by simp
next
  fix a b r :: u64
  assume nz: "b \<noteq> 0" and r: "umod a b = Inr r"
  from r nz have "r = a mod b"
    by (simp add: umod_def)
  moreover from nz have "a mod b < b"
    by (simp add: word_mod_less_divisor word_neq_0_conv)
  ultimately have "unat r < unat b"
    by (simp add: word_less_nat_alt)
  then show "((b, r), (a, b)) \<in> measure (\<lambda>(a, b). unat b)"
    by simp
qed

declare Computer_loop.simps [simp del]

text \<open>
  \<open>Computer\<close> returns a pair of a response and an error; the error it returns is the
  constant \<open>nil\<close>. A Go error is modelled by its message, \<open>None\<close> is \<open>nil\<close>. The
  context argument is not used by the body and is left out.
\<close>

type_synonym go_error = string

definition Computer :: "GCDRequest \<Rightarrow> panic + (GCDResponse \<times> go_error option)" where
  "Computer r =
     (case Computer_loop (A r) (B r) of
        Inl p \<Rightarrow> Inl p
      | Inr a \<Rightarrow> Inr (\<lparr>Result = a\<rparr>, None))"

section \<open>The gateway (api/main.go)\<close>

subsection \<open>Library functions the handler calls\<close>

text \<open>
  \<open>strconv.ParseUint\<close> and \<open>fmt.Sprint\<close> belong to the Go standard library, not to the
  repository. They are modelled here from the library's code, for the arguments the
  handler passes.

  \<open>strconv.ParseUint(s, 10, 64)\<close>, specialised to base 10 and 64 bits. It walks the
  bytes of \<open>s\<close> with the accumulator \<open>n\<close>, starting from 0. It fails with \<open>ErrSyntax\<close> on the empty string and on any byte that is
  not a digit of the base (a letter is a digit of value 10 and more, so it is refused in
  base 10; a sign is no digit at all), and with \<open>ErrRange\<close> when the value does not fit
  64 bits: before \<open>n *= 10\<close> when \<open>n >= cutoff\<close>, and after \<open>n1 := n + v\<close> when
  the sum wrapped around (\<open>n1 < n\<close>) or exceeds \<open>maxVal\<close>, which for 64 bits is
  \<open>maxUint64\<close>. The handler reads the value only when the error is \<open>nil\<close>, so the
  value returned beside an error is left out.
\<close>

datatype num_error = ErrSyntax | ErrRange

definition digit_val :: "char \<Rightarrow> nat option" where
  "digit_val c =
     (let d = (of_char c :: nat) in
      if 48 \<le> d \<and> d \<le> 57 then Some (d - 48)
      else if 97 \<le> d \<and> d \<le> 122 then Some (d - 97 + 10)
      else if 65 \<le> d \<and> d \<le> 90 then Some (d - 65 + 10)
      else None)"

definition maxUint64 :: u64 where
  "maxUint64 = 18446744073709551615"

definition cutoff :: u64 where
  "cutoff = maxUint64 div 10 + 1"

fun ParseUint_loop :: "u64 \<Rightarrow> string \<Rightarrow> num_error + u64" where
  "ParseUint_loop n [] = Inr n"
| "ParseUint_loop n (c # cs) =
     (case digit_val c of
        None \<Rightarrow> Inl ErrSyntax
      | Some v \<Rightarrow>
          if v \<ge> 10 then Inl ErrSyntax
          else if n \<ge> cutoff then Inl ErrRange
          else
            (let n10 = n * 10; n1 = n10 + of_nat v in
             if n1 < n10 \<or> n1 > maxUint64 then Inl ErrRange
             else ParseUint_loop n1 cs))"

definition ParseUint :: "string \<Rightarrow> num_error + u64" where
  "ParseUint s = (if s = [] then Inl ErrSyntax else ParseUint_loop 0 s)"

text \<open>
  \<open>fmt.Sprint\<close> of one \<open>uint64\<close> operand prints it in base 10 (the integer formatter
  of package \<open>fmt\<close>): the digits are produced from the right,
  \<^verbatim>\<open>
  for u >= 10 {
    i--
    next := u / 10
    buf[i] = byte('0' + u - next*10)
    u = next
  }
  i--
  buf[i] = digits[u]
  \<close>
  The buffer filled from its end is the accumulator \<open>buf\<close>.
\<close>

definition digits :: string where
  "digits = ''0123456789abcdefx''"

function fmtInteger :: "u64 \<Rightarrow> string \<Rightarrow> string" where
  "fmtInteger u buf =
     (if u \<ge> 10
      then (let next = u div 10 in
            fmtInteger next (char_of (unat (48 + u - next * 10)) # buf))
      else (digits ! unat u) # buf)"
  by pat_completeness auto
termination
proof (relation "measure (\<lambda>(u, buf). unat u)")
  show "wf (measure (\<lambda>(u, buf). unat u))"
    by simp
next
  fix u nxt :: u64 and buf :: string
  assume ge: "10 \<le> u" and nx: "nxt = u div 10"
  from ge have "10 \<le> unat u"
    by (simp add: word_le_nat_alt)
  then have "unat u div 10 < unat u"
    by simp
  with nx have "unat nxt < unat u"
    by (simp add: unat_div)
  then show "((nxt, char_of (unat (48 + u - nxt * 10)) # buf), (u, buf))
             \<in> measure (\<lambda>(u, buf). unat u)"
    by simp
qed

declare fmtInteger.simps [simp del]

definition Sprint :: "u64 \<Rightarrow> string" where
  "Sprint u = fmtInteger u []"

subsection \<open>The handler of \<open>GET /gcd/:a/:b\<close>\<close>

text \<open>
  The status codes of package \<open>net/http\<close> that the handler names.
\<close>

definition StatusOK :: nat where
  "StatusOK = 200"

definition StatusBadRequest :: nat where
  "StatusBadRequest = 400"

definition StatusInternalServerError :: nat where
  "StatusInternalServerError = 500"

text \<open>
  \<open>c.JSON(code, gin.H{...})\<close> writes the status code and the map as a JSON object. A Go
  string is encoded as a JSON string, a Go integer as a JSON number.
\<close>

datatype json = JString string | JNumber nat | JObject "(string \<times> json) list"

record http_response =
  status :: nat
  body :: json

text \<open>
  The generated stub \<open>gcdClient.Computer(c, req)\<close> sends the request over the
  connection and returns the service's response or an error. The transport is outside
  the program, so the stub is a parameter of the handler: \<open>Inl err\<close> is a call that
  returned a non-nil error, \<open>Inr res\<close> one that returned \<open>res\<close> with a nil error.
\<close>

type_synonym rpc_client = "GCDRequest \<Rightarrow> go_error + GCDResponse"

text \<open>
  The handler takes the two path parameters as the router delivers them. It returns the
  response it writes, and the list of the requests it sent through the stub, in order.
\<close>

definition gcd_handler :: "rpc_client \<Rightarrow> string \<Rightarrow> string \<Rightarrow> http_response \<times> GCDRequest list" where
  "gcd_handler gcdClient pa pb =
     (case ParseUint pa of
        Inl err \<Rightarrow>
          (\<lparr>status = StatusBadRequest,
            body = JObject [(''error'', JString ''Invalid parameter A'')]\<rparr>, [])
      | Inr a \<Rightarrow>
          (case ParseUint pb of
             Inl err \<Rightarrow>
               (\<lparr>status = StatusBadRequest,
                 body = JObject [(''error'', JString ''Invalid parameter B'')]\<rparr>, [])
           | Inr b \<Rightarrow>
               (let req = \<lparr>A = a, B = b\<rparr> in
                case gcdClient req of
                  Inr res \<Rightarrow>
                    (\<lparr>status = StatusOK,
                      body = JObject [(''result'', JString (Sprint (Result res)))]\<rparr>, [req])
                | Inl err \<Rightarrow>
                    (\<lparr>status = StatusInternalServerError,
                      body = JObject [(''error'', JString err)]\<rparr>, [req]))))"

text \<open>
  Two stubs. The first is the stub when the service cannot be reached: every call
  returns an error. The second is a stub whose transport never fails: the request
  reaches \<open>Computer\<close> and its answer comes back; a panic of the service, or an error it
  returns, reaches the caller as an error.
\<close>

definition unreachable_client :: rpc_client where
  "unreachable_client req = Inl ''rpc error: code = Unavailable desc = connection refused''"

definition connected_client :: rpc_client where
  "connected_client req =
     (case Computer req of
        Inl p \<Rightarrow> Inl ''rpc error: code = Unavailable''
      | Inr (res, None) \<Rightarrow> Inr res
      | Inr (res, Some err) \<Rightarrow> Inl err)"

section \<open>Notions the specification uses\<close>

text \<open>
  The specification speaks of a parameter that "parses as an unsigned 64-bit decimal
  integer": a non-empty string of the ASCII digits whose value in base 10 is below
  \<open>2 ^ 64\<close>. A sign, a letter, a blank or the empty string is not one.
\<close>

definition is_digit :: "char \<Rightarrow> bool" where
  "is_digit c = (48 \<le> (of_char c :: nat) \<and> (of_char c :: nat) \<le> 57)"

definition dec_step :: "nat \<Rightarrow> char \<Rightarrow> nat" where
  "dec_step n c = 10 * n + (of_char c - 48)"

definition dec_value :: "string \<Rightarrow> nat" where
  "dec_value s = foldl dec_step 0 s"

definition is_uint64_decimal :: "string \<Rightarrow> bool" where
  "is_uint64_decimal s = (s \<noteq> [] \<and> list_all is_digit s \<and> dec_value s < 2 ^ 64)"

text \<open>
  The status code of package \<open>net/http\<close> that is named "Service Unavailable".
\<close>

definition StatusServiceUnavailable :: nat where
  "StatusServiceUnavailable = 503"

section \<open>The compute service computes the greatest common divisor\<close>

lemma umod_nonzero: "b \<noteq> 0 \<Longrightarrow> umod a b = Inr (a mod b)"
  by (simp add: umod_def)

lemma Computer_loop_zero: "Computer_loop a 0 = Inr a"
  by (simp add: Computer_loop.simps)

lemma Computer_loop_step: "b \<noteq> 0 \<Longrightarrow> Computer_loop a b = Computer_loop b (a mod b)"
  by (subst Computer_loop.simps) (simp add: umod_nonzero)

lemma Computer_loop_gcd:
  "\<exists>r. Computer_loop a b = Inr r \<and> unat r = gcd (unat a) (unat b)"
proof (induction a b rule: Computer_loop.induct)
  case (1 a b)
  show ?case
  proof (cases "b = 0")
    case True
    then show ?thesis
      by (simp add: Computer_loop_zero)
  next
    case False
    then have "umod a b = Inr (a mod b)"
      by (rule umod_nonzero)
    with False "1.IH" obtain r where r: "Computer_loop b (a mod b) = Inr r"
      and g: "unat r = gcd (unat b) (unat (a mod b))"
      by blast
    have "gcd (unat b) (unat a mod unat b) = gcd (unat a) (unat b)"
      by (metis gcd.commute gcd_red_nat)
    with g have "unat r = gcd (unat a) (unat b)"
      by (simp add: unat_mod)
    with r False show ?thesis
      by (simp add: Computer_loop_step)
  qed
qed

lemma Computer_gcd:
  "\<exists>R. Computer \<lparr>A = a, B = b\<rparr> = Inr (\<lparr>Result = R\<rparr>, None) \<and> unat R = gcd (unat a) (unat b)"
proof -
  from Computer_loop_gcd [of a b] obtain r where "Computer_loop a b = Inr r"
    and "unat r = gcd (unat a) (unat b)"
    by blast
  then show ?thesis
    by (simp add: Computer_def)
qed

lemma Computer_eqI:
  assumes "unat R = gcd (unat a) (unat b)"
  shows "Computer \<lparr>A = a, B = b\<rparr> = Inr (\<lparr>Result = R\<rparr>, None)"
proof -
  from Computer_gcd [of a b] obtain R' where c: "Computer \<lparr>A = a, B = b\<rparr> = Inr (\<lparr>Result = R'\<rparr>, None)"
    and "unat R' = gcd (unat a) (unat b)"
    by blast
  with assms have "unat R' = unat R"
    by simp
  then have "R' = R"
    by (simp add: word_unat_eq_iff)
  with c show ?thesis
    by simp
qed

lemma word_mod_eq_0_iff: "(a :: u64) mod d = 0 \<longleftrightarrow> unat d dvd unat a"
proof -
  have "a mod d = 0 \<longleftrightarrow> unat (a mod d) = 0"
    by (simp add: unat_eq_zero)
  also have "\<dots> \<longleftrightarrow> unat a mod unat d = 0"
    by (simp add: unat_mod)
  also have "\<dots> \<longleftrightarrow> unat d dvd unat a"
    by (simp add: dvd_eq_mod_eq_0)
  finally show ?thesis .
qed

text \<open>
  Claim C1. For every pair of 64-bit unsigned integers \<open>a\<close>, \<open>b\<close>, \<open>Computer\<close> returns a
  result \<open>R\<close> with a nil error; \<open>R\<close> is the greatest common divisor of \<open>a\<close> and \<open>b\<close>
  (with \<open>gcd x 0 = x\<close>, \<open>gcd 0 y = y\<close>, \<open>gcd 0 0 = 0\<close>, as the library's \<open>gcd\<close> on the
  naturals has it); \<open>R\<close> is 0 exactly when both are 0; and unless both are 0, \<open>R\<close>
  divides both evenly and no other common divisor is larger.
\<close>

theorem Computer_is_gcd:
  "\<exists>R. Computer \<lparr>A = a, B = b\<rparr> = Inr (\<lparr>Result = R\<rparr>, None)
     \<and> unat R = gcd (unat a) (unat b)
     \<and> (R = 0 \<longleftrightarrow> a = 0 \<and> b = 0)
     \<and> (a \<noteq> 0 \<or> b \<noteq> 0 \<longrightarrow>
          a mod R = 0 \<and> b mod R = 0
          \<and> (\<forall>d. d \<noteq> 0 \<and> a mod d = 0 \<and> b mod d = 0 \<longrightarrow> d \<le> R))"
proof -
  from Computer_gcd [of a b] obtain R
    where c: "Computer \<lparr>A = a, B = b\<rparr> = Inr (\<lparr>Result = R\<rparr>, None)"
      and g: "unat R = gcd (unat a) (unat b)"
    by blast
  have "R = 0 \<longleftrightarrow> unat R = 0"
    by (simp add: unat_eq_zero)
  also from g have "\<dots> \<longleftrightarrow> unat a = 0 \<and> unat b = 0"
    by simp
  also have "\<dots> \<longleftrightarrow> a = 0 \<and> b = 0"
    by (simp add: unat_eq_zero)
  finally have z: "R = 0 \<longleftrightarrow> a = 0 \<and> b = 0" .
  have da: "a mod R = 0" and db: "b mod R = 0"
    using g by (simp_all add: word_mod_eq_0_iff)
  have gr: "d \<le> R" if nz: "a \<noteq> 0 \<or> b \<noteq> 0"
    and d: "d \<noteq> 0 \<and> a mod d = 0 \<and> b mod d = 0" for d
  proof -
    from d have "unat d dvd gcd (unat a) (unat b)"
      by (simp add: word_mod_eq_0_iff)
    moreover from nz have "0 < gcd (unat a) (unat b)"
      by (auto simp: unat_gt_0)
    ultimately have "unat d \<le> gcd (unat a) (unat b)"
      by (rule dvd_imp_le)
    with g show ?thesis
      by (simp add: word_le_nat_alt)
  qed
  have "\<forall>d. d \<noteq> 0 \<and> a mod d = 0 \<and> b mod d = 0 \<longrightarrow> d \<le> R" if "a \<noteq> 0 \<or> b \<noteq> 0"
    using that by (intro allI impI) (rule gr)
  with c g z da db show ?thesis
    by (intro exI [of _ R] conjI impI)
qed

theorem Computer_is_gcd_witness:
  "Computer \<lparr>A = 294, B = 462\<rparr> = Inr (\<lparr>Result = 42\<rparr>, None)
   \<and> unat (42 :: u64) = gcd (unat (294 :: u64)) (unat (462 :: u64))
   \<and> (294 :: u64) \<noteq> 0
   \<and> (294 :: u64) mod 42 = 0 \<and> (462 :: u64) mod 42 = 0
   \<and> (21 :: u64) \<noteq> 0 \<and> (294 :: u64) mod 21 = 0 \<and> (462 :: u64) mod 21 = 0
   \<and> (21 :: u64) \<le> 42"
proof -
  have c: "Computer \<lparr>A = 294, B = 462\<rparr> = Inr (\<lparr>Result = 42\<rparr>, None)"
    by code_simp
  have nz: "(294 :: u64) \<noteq> 0 \<or> (462 :: u64) \<noteq> 0"
    by simp
  have d: "(21 :: u64) \<noteq> 0 \<and> (294 :: u64) mod 21 = 0 \<and> (462 :: u64) mod 21 = 0"
    by simp
  from Computer_is_gcd [of 294 462] obtain R
    where all: "Computer \<lparr>A = 294, B = 462\<rparr> = Inr (\<lparr>Result = R\<rparr>, None)
      \<and> unat R = gcd (unat (294 :: u64)) (unat (462 :: u64))
      \<and> (R = 0 \<longleftrightarrow> (294 :: u64) = 0 \<and> (462 :: u64) = 0)
      \<and> ((294 :: u64) \<noteq> 0 \<or> (462 :: u64) \<noteq> 0 \<longrightarrow>
          294 mod R = 0 \<and> 462 mod R = 0
          \<and> (\<forall>d. d \<noteq> 0 \<and> 294 mod d = 0 \<and> 462 mod d = 0 \<longrightarrow> d \<le> R))" ..
  note R = all [THEN conjunct1]
  note g = all [THEN conjunct2, THEN conjunct1]
  note m = all [THEN conjunct2, THEN conjunct2, THEN conjunct2, THEN mp, OF nz]
  from c R have R42: "R = 42"
    by simp
  have m4: "21 \<le> R"
    by (rule m [THEN conjunct2, THEN conjunct2, THEN spec, THEN mp]) (rule d)
  from c g [unfolded R42] m [THEN conjunct1, unfolded R42]
    m [THEN conjunct2, THEN conjunct1, unfolded R42] d m4 [unfolded R42]
  show ?thesis
    by simp
qed

section \<open>The loop terminates and never divides by zero\<close>

text \<open>
  Claim C2. The loop of \<open>Computer\<close> returns for every pair of 64-bit unsigned
  integers, and it returns a value, not the panic of a remainder by zero. It exits when
  \<open>b\<close> is zero, with \<open>a\<close>. While \<open>b\<close> is not zero the body runs: the remainder is
  taken with a divisor that is not zero, the pair \<open>(a, b)\<close> is replaced by
  \<open>(b, a mod b)\<close>, and the new \<open>b\<close> is strictly below the old one; this is the measure
  by which \<open>Computer_loop\<close> is shown to terminate.
\<close>

theorem Computer_loop_total:
  "(\<exists>r. Computer_loop a b = Inr r)
   \<and> Computer_loop a 0 = Inr a
   \<and> (b \<noteq> 0 \<longrightarrow>
        umod a b = Inr (a mod b) \<and> unat (a mod b) < unat b
        \<and> Computer_loop a b = Computer_loop b (a mod b))"
proof -
  from Computer_loop_gcd [of a b] have ret: "\<exists>r. Computer_loop a b = Inr r"
    by (elim exE conjE) (rule exI)
  have "unat (a mod b) < unat b" if "b \<noteq> 0"
  proof -
    from that have "0 < unat b"
      by (simp add: unat_gt_0)
    then have "unat a mod unat b < unat b"
      by simp
    then show ?thesis
      by (simp add: unat_mod)
  qed
  with ret show ?thesis
    by (simp add: umod_nonzero Computer_loop_zero Computer_loop_step)
qed

theorem Computer_loop_total_witness:
  "Computer_loop 294 462 = Inr 42 \<and> (462 :: u64) \<noteq> 0
   \<and> umod 294 462 = Inr 294 \<and> unat (294 :: u64) < unat (462 :: u64)
   \<and> Computer_loop 294 462 = Computer_loop 462 294"
proof -
  have nz: "(462 :: u64) \<noteq> 0"
    by simp
  have r: "Computer_loop 294 462 = Inr 42"
    by code_simp
  note t = Computer_loop_total [of 294 462]
  from t [THEN conjunct2, THEN conjunct2, THEN mp, OF nz]
  have "umod 294 462 = Inr 294 \<and> unat (294 :: u64) < unat (462 :: u64)
     \<and> Computer_loop 294 462 = Computer_loop 462 294"
    by simp
  with r nz show ?thesis
    by simp
qed

text \<open>
  Claim C5. \<open>Computer\<close> never errors: for every request it returns a response
  together with the nil error, and it does not panic.
\<close>

theorem Computer_never_errors: "\<exists>res. Computer r = Inr (res, None)"
proof -
  from Computer_gcd [of "A r" "B r"] obtain R
    where "Computer \<lparr>A = A r, B = B r\<rparr> = Inr (\<lparr>Result = R\<rparr>, None)"
    by (elim exE conjE)
  then have "Computer r = Inr (\<lparr>Result = R\<rparr>, None)"
    by (simp add: Computer_def)
  then show ?thesis ..
qed

section \<open>Algebraic properties and scenarios\<close>

text \<open>
  Claim C6. A zero operand: \<open>compute(a, 0) = a\<close>, \<open>compute(0, b) = b\<close> and
  \<open>compute(0, 0) = 0\<close>.
\<close>

theorem Computer_zero:
  "Computer \<lparr>A = a, B = 0\<rparr> = Inr (\<lparr>Result = a\<rparr>, None)
   \<and> Computer \<lparr>A = 0, B = b\<rparr> = Inr (\<lparr>Result = b\<rparr>, None)
   \<and> Computer \<lparr>A = 0, B = 0\<rparr> = Inr (\<lparr>Result = 0\<rparr>, None)"
  by (intro conjI Computer_eqI) simp_all

text \<open>
  Claim C7. \<open>Computer\<close> is commutative: swapping the two fields of the request gives
  the same answer, which is a response with a nil error.
\<close>

theorem Computer_commutative:
  "Computer \<lparr>A = a, B = b\<rparr> = Computer \<lparr>A = b, B = a\<rparr>
   \<and> (\<exists>R. Computer \<lparr>A = a, B = b\<rparr> = Inr (\<lparr>Result = R\<rparr>, None)
          \<and> Computer \<lparr>A = b, B = a\<rparr> = Inr (\<lparr>Result = R\<rparr>, None))"
proof -
  from Computer_gcd [of a b] obtain R
    where c: "Computer \<lparr>A = a, B = b\<rparr> = Inr (\<lparr>Result = R\<rparr>, None)"
      and g: "unat R = gcd (unat a) (unat b)"
    by (elim exE conjE)
  from g have "unat R = gcd (unat b) (unat a)"
    by (simp add: gcd.commute)
  then have c': "Computer \<lparr>A = b, B = a\<rparr> = Inr (\<lparr>Result = R\<rparr>, None)"
    by (rule Computer_eqI)
  from c c' have "Computer \<lparr>A = a, B = b\<rparr> = Computer \<lparr>A = b, B = a\<rparr>"
    by simp
  moreover from c c' have "\<exists>R. Computer \<lparr>A = a, B = b\<rparr> = Inr (\<lparr>Result = R\<rparr>, None)
      \<and> Computer \<lparr>A = b, B = a\<rparr> = Inr (\<lparr>Result = R\<rparr>, None)"
    by (intro exI [of _ R] conjI)
  ultimately show ?thesis ..
qed

text \<open>
  Claim C8. \<open>compute(a, a) = a\<close> for every \<open>a\<close>; hence applying the function to
  its own result twice over gives that result again.
\<close>

theorem Computer_same:
  "Computer \<lparr>A = a, B = a\<rparr> = Inr (\<lparr>Result = a\<rparr>, None)
   \<and> (\<exists>R. Computer \<lparr>A = a, B = b\<rparr> = Inr (\<lparr>Result = R\<rparr>, None)
          \<and> Computer \<lparr>A = R, B = R\<rparr> = Inr (\<lparr>Result = R\<rparr>, None))"
proof -
  have same: "Computer \<lparr>A = x, B = x\<rparr> = Inr (\<lparr>Result = x\<rparr>, None)" for x
    by (rule Computer_eqI) simp
  from Computer_gcd [of a b] obtain R
    where c: "Computer \<lparr>A = a, B = b\<rparr> = Inr (\<lparr>Result = R\<rparr>, None)"
    by (elim exE conjE)
  from c same [of R] have "\<exists>R. Computer \<lparr>A = a, B = b\<rparr> = Inr (\<lparr>Result = R\<rparr>, None)
          \<and> Computer \<lparr>A = R, B = R\<rparr> = Inr (\<lparr>Result = R\<rparr>, None)"
    by (intro exI [of _ R] conjI)
  with same [of a] show ?thesis
    by (intro conjI)
qed

text \<open>
  Claim C9. The concrete scenarios: \<open>compute(294, 462) = 42\<close>, \<open>compute(0, 5) = 5\<close>,
  \<open>compute(17, 5) = 1\<close>, \<open>compute(48, 18) = 6\<close> and \<open>compute(0, 0) = 0\<close>.
\<close>

theorem Computer_scenarios:
  "Computer \<lparr>A = 294, B = 462\<rparr> = Inr (\<lparr>Result = 42\<rparr>, None)
   \<and> Computer \<lparr>A = 0, B = 5\<rparr> = Inr (\<lparr>Result = 5\<rparr>, None)
   \<and> Computer \<lparr>A = 17, B = 5\<rparr> = Inr (\<lparr>Result = 1\<rparr>, None)
   \<and> Computer \<lparr>A = 48, B = 18\<rparr> = Inr (\<lparr>Result = 6\<rparr>, None)
   \<and> Computer \<lparr>A = 0, B = 0\<rparr> = Inr (\<lparr>Result = 0\<rparr>, None)"
  by code_simp

section \<open>Parsing and printing decimal numbers\<close>

subsection \<open>What \<open>ParseUint\<close> accepts\<close>

lemma digit_val_digit:
  assumes "is_digit c"
  shows "digit_val c = Some (of_char c - 48)" and "(of_char c :: nat) - 48 < 10"
  using assms by (simp_all add: is_digit_def digit_val_def) arith

lemma digit_val_other:
  assumes "\<not> is_digit c"
  shows "digit_val c = None \<or> (\<exists>v. digit_val c = Some v \<and> 10 \<le> v)"
  using assms by (auto simp: is_digit_def digit_val_def Let_def)

lemma foldl_dec_step_ge: "m \<le> foldl dec_step m cs"
proof (induction cs arbitrary: m)
  case Nil
  show ?case by simp
next
  case (Cons c cs)
  have "m \<le> dec_step m c"
    by (simp add: dec_step_def)
  also have "\<dots> \<le> foldl dec_step (dec_step m c) cs"
    by (rule Cons.IH)
  finally show ?case by simp
qed

lemma unat_cutoff: "unat cutoff = 1844674407370955162"
  by (simp add: cutoff_def maxUint64_def)

lemma le_maxUint64: "\<not> maxUint64 < (x :: u64)"
proof -
  have "unat x < 2 ^ 64"
    using unsigned_less [of x, where ?'a = nat] by simp
  then show ?thesis
    by (simp add: word_less_nat_alt maxUint64_def)
qed

lemma ParseUint_loop_unfold:
  assumes "v < 10" and "digit_val c = Some v"
  shows "ParseUint_loop n (c # cs) =
           (if cutoff \<le> n then Inl ErrRange
            else if n * 10 + of_nat v < n * 10 \<or> maxUint64 < n * 10 + of_nat v
              then Inl ErrRange
              else ParseUint_loop (n * 10 + of_nat v) cs)"
  using assms by (simp add: Let_def)

lemma unat_step:
  assumes "10 * unat (n :: u64) + v < 2 ^ 64"
  shows "unat (n * 10 + of_nat v) = 10 * unat n + v"
proof -
  from assms have "unat (n * 10) = 10 * unat n"
    by (simp add: unat_word_ariths)
  moreover from assms have "unat (of_nat v :: u64) = v"
    by (simp add: unat_of_nat)
  ultimately have "unat (n * 10 + of_nat v) = (10 * unat n + v) mod 2 ^ 64"
    by (simp only: unat_word_ariths(1)) simp
  with assms show ?thesis
    by simp
qed

lemma ParseUint_loop_step:
  assumes v: "v < 10" and dv: "digit_val c = Some v"
  shows "ParseUint_loop n (c # cs) =
           (if 10 * unat n + v < 2 ^ 64 then ParseUint_loop (n * 10 + of_nat v) cs
            else Inl ErrRange)"
proof (cases "cutoff \<le> n")
  case True
  then have "1844674407370955162 \<le> unat n"
    by (simp add: word_le_nat_alt unat_cutoff)
  then have "\<not> 10 * unat n + v < 2 ^ 64"
    by simp
  with True show ?thesis
    by (simp only: ParseUint_loop_unfold [OF v dv] if_True if_False)
next
  case nc: False
  then have N: "unat n \<le> 1844674407370955161"
    by (simp add: word_le_nat_alt unat_cutoff)
  then have n10: "unat (n * 10) = 10 * unat n"
    by (simp add: unat_word_ariths)
  show ?thesis
  proof (cases "10 * unat n + v < 2 ^ 64")
    case True
    then have "unat (n * 10 + of_nat v) = 10 * unat n + v"
      by (rule unat_step)
    with n10 have "unat (n * 10) \<le> unat (n * 10 + of_nat v)"
      by simp
    then have "\<not> n * 10 + of_nat v < n * 10"
      by (simp only: word_less_nat_alt not_less)
    with nc True show ?thesis
      by (simp only: ParseUint_loop_unfold [OF v dv] if_True if_False le_maxUint64 simp_thms)
  next
    case False
    from v have uv: "unat (of_nat v :: u64) = v"
      by (simp add: unat_of_nat)
    have "unat (n * 10 + of_nat v) = (unat (n * 10) + unat (of_nat v :: u64)) mod 2 ^ 64"
      by (simp only: unat_word_ariths(1)) simp
    with n10 uv have wrap: "unat (n * 10 + of_nat v) = (10 * unat n + v) mod 2 ^ 64"
      by simp
    from False have ge: "(2 :: nat) ^ 64 \<le> 10 * unat n + v"
      by simp
    from N v have "10 * unat n + v - 2 ^ 64 < (2 :: nat) ^ 64"
      by simp
    then have "(10 * unat n + v - 2 ^ 64) mod 2 ^ 64 = 10 * unat n + v - 2 ^ 64"
      by (rule mod_less)
    with le_mod_geq [OF ge] wrap
    have "unat (n * 10 + of_nat v) = 10 * unat n + v - 2 ^ 64"
      by (simp only:)
    with ge v have "unat (n * 10 + of_nat v) < 10 * unat n"
      by simp
    with n10 have "unat (n * 10 + of_nat v) < unat (n * 10)"
      by simp
    then have "n * 10 + of_nat v < n * 10"
      by (simp only: word_less_nat_alt)
    with nc False show ?thesis
      by (simp only: ParseUint_loop_unfold [OF v dv] if_True if_False simp_thms)
  qed
qed

lemma ParseUint_loop_digits:
  "list_all is_digit cs \<Longrightarrow>
   ParseUint_loop n cs =
     (if foldl dec_step (unat n) cs < 2 ^ 64
      then Inr (of_nat (foldl dec_step (unat n) cs)) else Inl ErrRange)"
proof (induction cs arbitrary: n)
  case Nil
  have "unat n < 2 ^ 64"
    using unsigned_less [of n, where ?'a = nat] by simp
  then show ?case
    by simp
next
  case (Cons c cs)
  from Cons.prems have c: "is_digit c" and cs: "list_all is_digit cs"
    by simp_all
  define v where "v = (of_char c :: nat) - 48"
  define m where "m = 10 * unat n + v"
  from c have step: "ParseUint_loop n (c # cs) =
      (if m < 2 ^ 64 then ParseUint_loop (n * 10 + of_nat v) cs else Inl ErrRange)"
    unfolding m_def v_def by (intro ParseUint_loop_step digit_val_digit)
  have ds: "foldl dec_step (unat n) (c # cs) = foldl dec_step m cs"
    by (simp add: dec_step_def m_def v_def)
  show ?case
  proof (cases "m < 2 ^ 64")
    case True
    then have "unat (n * 10 + of_nat v) = m"
      unfolding m_def by (rule unat_step)
    with Cons.IH [OF cs, of "n * 10 + of_nat v"] have
      "ParseUint_loop (n * 10 + of_nat v) cs =
         (if foldl dec_step m cs < 2 ^ 64
          then Inr (of_nat (foldl dec_step m cs)) else Inl ErrRange)"
      by simp
    with step True show ?thesis
      by (simp only: ds if_True)
  next
    case False
    have "m \<le> foldl dec_step m cs"
      by (rule foldl_dec_step_ge)
    with False have "\<not> foldl dec_step m cs < 2 ^ 64"
      by simp
    with step False show ?thesis
      by (simp only: ds if_False)
  qed
qed

lemma ParseUint_loop_not_digits:
  "\<not> list_all is_digit cs \<Longrightarrow> \<exists>e. ParseUint_loop n cs = Inl e"
proof (induction cs arbitrary: n)
  case Nil
  then show ?case by simp
next
  case (Cons c cs)
  show ?case
  proof (cases "is_digit c")
    case True
    with Cons.prems have "\<not> list_all is_digit cs"
      by simp
    then have "\<exists>e. ParseUint_loop m cs = Inl e" for m
      by (rule Cons.IH)
    moreover from True have "ParseUint_loop n (c # cs) =
      (if 10 * unat n + (of_char c - 48) < 2 ^ 64
       then ParseUint_loop (n * 10 + of_nat (of_char c - 48)) cs else Inl ErrRange)"
      by (intro ParseUint_loop_step digit_val_digit)
    ultimately show ?thesis
      by (simp only: split: if_split) simp
  next
    case False
    from digit_val_other [OF False] show ?thesis
      by auto
  qed
qed

lemma ParseUint_Inr_iff:
  "ParseUint s = Inr n \<longleftrightarrow> is_uint64_decimal s \<and> dec_value s = unat n"
proof (cases "s \<noteq> [] \<and> list_all is_digit s")
  case True
  then have "ParseUint s =
     (if dec_value s < 2 ^ 64 then Inr (of_nat (dec_value s)) else Inl ErrRange)"
    by (simp add: ParseUint_def ParseUint_loop_digits dec_value_def)
  moreover have "(of_nat (dec_value s) :: u64) = n \<longleftrightarrow> dec_value s = unat n"
    if "dec_value s < 2 ^ 64"
    using that by (auto simp: unat_of_nat)
  moreover have "unat n < 2 ^ 64"
    using unsigned_less [of n, where ?'a = nat] by simp
  ultimately show ?thesis
    using True by (auto simp: is_uint64_decimal_def)
next
  case False
  then have "\<exists>e. ParseUint s = Inl e"
    by (auto simp: ParseUint_def ParseUint_loop_not_digits)
  with False show ?thesis
    by (auto simp: is_uint64_decimal_def)
qed

lemma ParseUint_Inl_iff:
  "(\<exists>e. ParseUint s = Inl e) \<longleftrightarrow> \<not> is_uint64_decimal s"
proof
  assume "\<exists>e. ParseUint s = Inl e"
  then show "\<not> is_uint64_decimal s"
  proof (rule contrapos_pn)
    assume d: "is_uint64_decimal s"
    then have "dec_value s < 2 ^ 64"
      by (simp add: is_uint64_decimal_def)
    then have "dec_value s = unat (of_nat (dec_value s) :: u64)"
      by (simp add: unat_of_nat)
    with d have "ParseUint s = Inr (of_nat (dec_value s))"
      by (simp add: ParseUint_Inr_iff)
    then show "\<not> (\<exists>e. ParseUint s = Inl e)"
      by simp
  qed
next
  assume nd: "\<not> is_uint64_decimal s"
  show "\<exists>e. ParseUint s = Inl e"
  proof (cases "ParseUint s")
    case (Inl e)
    then show ?thesis by simp
  next
    case (Inr n)
    with nd show ?thesis
      by (simp add: ParseUint_Inr_iff)
  qed
qed

subsection \<open>What \<open>Sprint\<close> prints\<close>

lemma fmtInteger_small: "u < 10 \<Longrightarrow> fmtInteger u buf = (digits ! unat u) # buf"
  by (subst fmtInteger.simps) (simp add: not_le [symmetric])

lemma last_digit: "unat (48 + u - u div 10 * 10 :: u64) = 48 + unat u mod 10"
proof -
  have "48 + u - u div 10 * 10 = 48 + (u - u div 10 * 10)"
    by simp
  also have "\<dots> = 48 + u mod 10"
    by (simp only: minus_div_mult_eq_mod)
  finally have e: "48 + u - u div 10 * 10 = 48 + u mod 10" .
  have "unat (48 + u mod 10) = (unat (48 :: u64) + unat (u mod 10)) mod 2 ^ 64"
    by (simp only: unat_word_ariths(1)) simp
  moreover have "unat (u mod 10) = unat u mod 10"
    by (simp add: unat_mod)
  ultimately have "unat (48 + u - u div 10 * 10) = (48 + unat u mod 10) mod 2 ^ 64"
    by (simp add: e)
  moreover have "48 + unat u mod 10 < (2 :: nat) ^ 64"
  proof -
    have "unat u mod 10 < 10"
      by simp
    then show ?thesis
      by simp
  qed
  ultimately show ?thesis
    by (simp only: mod_less)
qed

lemma fmtInteger_large:
  "10 \<le> u \<Longrightarrow>
   fmtInteger u buf = fmtInteger (u div 10) (char_of (48 + unat u mod 10) # buf)"
  by (subst fmtInteger.simps) (simp only: if_True Let_def last_digit)

lemma unat_div_10_less: "10 \<le> (u :: u64) \<Longrightarrow> unat (u div 10) < unat u"
proof -
  assume "10 \<le> u"
  then have "10 \<le> unat u"
    by (simp add: word_le_nat_alt)
  then have "unat u div 10 < unat u"
    by simp
  then show ?thesis
    by (simp add: unat_div)
qed

lemma fmtInteger_append: "fmtInteger u buf = fmtInteger u [] @ buf"
proof (induction "unat u" arbitrary: u buf rule: less_induct)
  case less
  show ?case
  proof (cases "10 \<le> u")
    case True
    let ?c = "char_of (48 + unat u mod 10) :: char"
    from True have lt: "unat (u div 10) < unat u"
      by (rule unat_div_10_less)
    have "fmtInteger u buf = fmtInteger (u div 10) (?c # buf)"
      using True by (rule fmtInteger_large)
    also have "\<dots> = fmtInteger (u div 10) [] @ (?c # buf)"
      using lt by (rule less.hyps)
    also have "\<dots> = (fmtInteger (u div 10) [] @ [?c]) @ buf"
      by simp
    also have "fmtInteger (u div 10) [] @ [?c] = fmtInteger (u div 10) [?c]"
      using lt by (rule less.hyps [symmetric])
    also have "\<dots> = fmtInteger u []"
      using True by (rule fmtInteger_large [symmetric])
    finally show ?thesis .
  next
    case False
    then have "u < 10"
      by simp
    then show ?thesis
      by (simp add: fmtInteger_small)
  qed
qed

lemma Sprint_small: "u < 10 \<Longrightarrow> Sprint u = [digits ! unat u]"
  by (simp add: Sprint_def fmtInteger_small)

lemma Sprint_large:
  assumes "10 \<le> u"
  shows "Sprint u = Sprint (u div 10) @ [char_of (48 + unat u mod 10)]"
proof -
  from assms have "Sprint u = fmtInteger (u div 10) [char_of (48 + unat u mod 10)]"
    unfolding Sprint_def by (rule fmtInteger_large)
  also have "\<dots> = fmtInteger (u div 10) [] @ [char_of (48 + unat u mod 10)]"
    by (rule fmtInteger_append)
  finally show ?thesis
    by (simp only: Sprint_def)
qed

lemma digits_nth:
  assumes "k < 10"
  shows "of_char (digits ! k) = 48 + k"
proof -
  from assms have "k \<in> {0, 1, 2, 3, 4, 5, 6, 7, 8, 9}"
    by auto
  then show ?thesis
    by (auto simp: digits_def)
qed

lemma dec_value_snoc: "dec_value (s @ [c]) = 10 * dec_value s + (of_char c - 48)"
  by (simp add: dec_value_def dec_step_def)

lemma Sprint_decimal:
  "Sprint u \<noteq> [] \<and> list_all is_digit (Sprint u) \<and> dec_value (Sprint u) = unat u"
proof (induction "unat u" arbitrary: u rule: less_induct)
  case less
  show ?case
  proof (cases "10 \<le> u")
    case True
    define c :: char where "c = char_of (48 + unat u mod 10)"
    have m: "unat u mod 10 < 10"
      by simp
    then have oc: "(of_char c :: nat) = 48 + unat u mod 10"
      by (simp add: c_def)
    then have dc: "is_digit c"
      using m by (simp add: is_digit_def)
    from True have sp: "Sprint u = Sprint (u div 10) @ [c]"
      unfolding c_def by (rule Sprint_large)
    from True have "unat (u div 10) < unat u"
      by (rule unat_div_10_less)
    then have ih: "list_all is_digit (Sprint (u div 10))"
      and iv: "dec_value (Sprint (u div 10)) = unat (u div 10)"
      using less.hyps [of "u div 10"] by simp_all
    have "dec_value (Sprint u) = 10 * unat (u div 10) + unat u mod 10"
      by (simp add: sp dec_value_snoc iv oc)
    also have "\<dots> = unat u"
      by (simp add: unat_div)
    finally have "dec_value (Sprint u) = unat u" .
    with sp ih dc show ?thesis
      by simp
  next
    case False
    then have small: "u < 10"
      by simp
    then have k: "unat u < 10"
      by (simp add: word_less_nat_alt)
    from small have sp: "Sprint u = [digits ! unat u]"
      by (rule Sprint_small)
    from k have oc: "(of_char (digits ! unat u) :: nat) = 48 + unat u"
      by (rule digits_nth)
    with k have "is_digit (digits ! unat u)"
      by (simp add: is_digit_def)
    moreover from oc have "dec_value [digits ! unat u] = unat u"
      by (simp add: dec_value_def dec_step_def)
    ultimately show ?thesis
      by (simp add: sp)
  qed
qed

lemma Sprint_is_uint64_decimal: "is_uint64_decimal (Sprint u)"
proof -
  have "unat u < 2 ^ 64"
    using unsigned_less [of u, where ?'a = nat] by simp
  with Sprint_decimal [of u] show ?thesis
    by (simp add: is_uint64_decimal_def)
qed

lemma ParseUint_Sprint: "ParseUint (Sprint u) = Inr u"
  by (simp add: ParseUint_Inr_iff Sprint_is_uint64_decimal Sprint_decimal)

section \<open>The gateway's responses\<close>

text \<open>
  With a transport that never fails, the stub's answer is the greatest common divisor:
  \<open>connected_client\<close> never returns an error.
\<close>

lemma connected_client_gcd:
  "\<exists>R. connected_client \<lparr>A = a, B = b\<rparr> = Inr \<lparr>Result = R\<rparr>
     \<and> unat R = gcd (unat a) (unat b)"
proof -
  from Computer_gcd [of a b] obtain R
    where "Computer \<lparr>A = a, B = b\<rparr> = Inr (\<lparr>Result = R\<rparr>, None)"
      and "unat R = gcd (unat a) (unat b)"
    by (elim exE conjE)
  then show ?thesis
    by (simp add: connected_client_def)
qed

lemma gcd_handler_bad_A:
  "ParseUint pa = Inl e \<Longrightarrow>
   gcd_handler gcdClient pa pb =
     (\<lparr>status = StatusBadRequest,
       body = JObject [(''error'', JString ''Invalid parameter A'')]\<rparr>, [])"
  by (simp add: gcd_handler_def)

lemma gcd_handler_bad_B:
  "ParseUint pa = Inr a \<Longrightarrow> ParseUint pb = Inl e \<Longrightarrow>
   gcd_handler gcdClient pa pb =
     (\<lparr>status = StatusBadRequest,
       body = JObject [(''error'', JString ''Invalid parameter B'')]\<rparr>, [])"
  by (simp add: gcd_handler_def)

text \<open>
  Claim C4. When parameter \<open>a\<close> or parameter \<open>b\<close> is not an unsigned 64-bit decimal
  integer (not numeric, with a sign, or too large for 64 bits), \<open>ParseUint\<close> returns an
  error for it, and the handler answers with status 400 Bad Request and sends no request
  through the stub, whatever the stub is: the compute function is not invoked.
\<close>

theorem gcd_handler_rejects_malformed:
  assumes "\<not> is_uint64_decimal pa \<or> \<not> is_uint64_decimal pb"
  shows "((\<exists>e. ParseUint pa = Inl e) \<or> (\<exists>e. ParseUint pb = Inl e))
     \<and> status (fst (gcd_handler gcdClient pa pb)) = StatusBadRequest
     \<and> snd (gcd_handler gcdClient pa pb) = []"
proof (cases "ParseUint pa")
  case (Inl e)
  then show ?thesis
    by (simp add: gcd_handler_bad_A)
next
  case (Inr a)
  then have "is_uint64_decimal pa"
    by (simp add: ParseUint_Inr_iff)
  with assms have "\<not> is_uint64_decimal pb"
    by simp
  then obtain e where "ParseUint pb = Inl e"
    using ParseUint_Inl_iff [of pb] by auto
  with Inr show ?thesis
    by (simp add: gcd_handler_bad_B)
qed

theorem gcd_handler_rejects_malformed_witness:
  "\<not> is_uint64_decimal ''abc''
   \<and> status (fst (gcd_handler connected_client ''abc'' ''462'')) = 400
   \<and> snd (gcd_handler connected_client ''abc'' ''462'') = []
   \<and> \<not> is_uint64_decimal ''-462''
   \<and> status (fst (gcd_handler connected_client ''294'' ''-462'')) = 400
   \<and> snd (gcd_handler connected_client ''294'' ''-462'') = []
   \<and> \<not> is_uint64_decimal ''18446744073709551616''
   \<and> status (fst (gcd_handler connected_client ''18446744073709551616'' ''462'')) = 400
   \<and> snd (gcd_handler connected_client ''18446744073709551616'' ''462'') = []"
proof -
  have "ParseUint ''abc'' = Inl ErrSyntax"
    by code_simp
  then have n1: "\<not> is_uint64_decimal ''abc''"
    using ParseUint_Inl_iff [of "''abc''"] by simp
  have "ParseUint ''-462'' = Inl ErrSyntax"
    by code_simp
  then have n2: "\<not> is_uint64_decimal ''-462''"
    using ParseUint_Inl_iff [of "''-462''"] by simp
  have "ParseUint ''18446744073709551616'' = Inl ErrRange"
    by code_simp
  then have n3: "\<not> is_uint64_decimal ''18446744073709551616''"
    using ParseUint_Inl_iff [of "''18446744073709551616''"] by simp
  note r1 = gcd_handler_rejects_malformed [of "''abc''" "''462''" connected_client, OF disjI1, OF n1]
  note r2 = gcd_handler_rejects_malformed [of "''294''" "''-462''" connected_client, OF disjI2, OF n2]
  note r3 = gcd_handler_rejects_malformed
    [of "''18446744073709551616''" "''462''" connected_client, OF disjI1, OF n3]
  from n1 n2 n3 r1 r2 r3 show ?thesis
    by (simp add: StatusBadRequest_def)
qed

text \<open>
  The specification places a failed call to the compute service in the "service
  unavailable" category, which is status 503 in \<open>net/http\<close>. The handler does not
  answer 503: with a stub that cannot reach the service and two well-formed parameters
  the response has status 500.
\<close>

theorem gcd_handler_rpc_failure_counterexample:
  "fst (gcd_handler unreachable_client ''294'' ''462'') =
     \<lparr>status = 500,
      body = JObject [(''error'',
        JString ''rpc error: code = Unavailable desc = connection refused'')]\<rparr>
   \<and> status (fst (gcd_handler unreachable_client ''294'' ''462'')) \<noteq> StatusServiceUnavailable"
  by code_simp

text \<open>
  Claim C3, as the handler has it. When both parameters parse and the call through the
  stub returns an error, the handler answers with status 500 Internal Server Error, a
  server error, and a JSON object that carries the error's message under the key
  \<open>error\<close>; the one request sent is the one built from the two parameters.
\<close>

theorem gcd_handler_rpc_failure:
  assumes "ParseUint pa = Inr a" and "ParseUint pb = Inr b"
    and "gcdClient \<lparr>A = a, B = b\<rparr> = Inl err"
  shows "gcd_handler gcdClient pa pb =
     (\<lparr>status = StatusInternalServerError, body = JObject [(''error'', JString err)]\<rparr>,
      [\<lparr>A = a, B = b\<rparr>])"
  using assms by (simp add: gcd_handler_def)

theorem gcd_handler_rpc_failure_witness:
  "ParseUint ''294'' = Inr 294 \<and> ParseUint ''462'' = Inr 462
   \<and> unreachable_client \<lparr>A = 294, B = 462\<rparr> =
       Inl ''rpc error: code = Unavailable desc = connection refused''
   \<and> gcd_handler unreachable_client ''294'' ''462'' =
       (\<lparr>status = 500,
         body = JObject [(''error'',
           JString ''rpc error: code = Unavailable desc = connection refused'')]\<rparr>,
        [\<lparr>A = 294, B = 462\<rparr>])"
proof -
  have a: "ParseUint ''294'' = Inr 294"
    by code_simp
  have b: "ParseUint ''462'' = Inr 462"
    by code_simp
  have c: "unreachable_client \<lparr>A = 294, B = 462\<rparr> =
       Inl ''rpc error: code = Unavailable desc = connection refused''"
    by (simp add: unreachable_client_def)
  from gcd_handler_rpc_failure [where gcdClient = unreachable_client, OF a b c] a b c show ?thesis
    by (simp add: StatusInternalServerError_def)
qed

text \<open>
  Claim C10. When both parameters parse and the call succeeds, the response has status
  200 and its JSON object holds, under the key \<open>result\<close>, a JSON string: the text
  \<open>Sprint\<close> prints for the result, which is its decimal representation (digits only,
  with the result as its value). It is not the JSON number of the result.
\<close>

theorem gcd_handler_result_string:
  assumes "ParseUint pa = Inr a" and "ParseUint pb = Inr b"
    and "gcdClient \<lparr>A = a, B = b\<rparr> = Inr res"
  shows "fst (gcd_handler gcdClient pa pb) =
       \<lparr>status = StatusOK, body = JObject [(''result'', JString (Sprint (Result res)))]\<rparr>
     \<and> is_uint64_decimal (Sprint (Result res))
     \<and> dec_value (Sprint (Result res)) = unat (Result res)
     \<and> body (fst (gcd_handler gcdClient pa pb)) \<noteq>
         JObject [(''result'', JNumber (unat (Result res)))]"
  using assms
  by (simp add: gcd_handler_def Sprint_is_uint64_decimal Sprint_decimal)

theorem gcd_handler_result_string_witness:
  "ParseUint ''294'' = Inr 294 \<and> ParseUint ''462'' = Inr 462
   \<and> connected_client \<lparr>A = 294, B = 462\<rparr> = Inr \<lparr>Result = 42\<rparr>
   \<and> fst (gcd_handler connected_client ''294'' ''462'') =
       \<lparr>status = 200, body = JObject [(''result'', JString ''42'')]\<rparr>"
proof -
  have a: "ParseUint ''294'' = Inr 294"
    by code_simp
  have b: "ParseUint ''462'' = Inr 462"
    by code_simp
  have c: "connected_client \<lparr>A = 294, B = 462\<rparr> = Inr \<lparr>Result = 42\<rparr>"
    by code_simp
  have s: "Sprint 42 = ''42''"
    by code_simp
  from gcd_handler_result_string [where gcdClient = connected_client, OF a b c, THEN conjunct1] a b c s show ?thesis
    by (simp add: StatusOK_def)
qed

end
